theory Spec2Isabelle
  imports Complex_Main
begin

section \<open>Character-level RNN notebook: batching, vocabulary, sampling\<close>

text \<open>
  The notebook \<^verbatim>\<open>Character_Level_RNN_Solution.ipynb\<close> is embedded function by
  function. Exceptions are values of \<open>py_error\<close>; a function that may raise returns
  \<open>py_error + 'a\<close> with \<open>Inl\<close> for the exception. Counts (\<open>batch_size\<close>,
  \<open>seq_length\<close>, \<open>size\<close>, \<open>top_k\<close>) are natural numbers, encoded characters are
  integers, network scores and probabilities are real numbers (the rounding, overflow
  and NaN of single-precision floats are not modelled). Moving tensors between
  devices and detaching them from the gradient history do not change their values
  and are left out.
\<close>

datatype py_error =
    ZeroDivisionError
  | ValueError
  | IndexError
  | KeyError
  | UnboundLocalError
  | RuntimeError
  | TypeError_not_iterable
  | TypeError_no_len

subsection \<open>Mini-batches: \<open>get_batches\<close>\<close>

type_synonym grid = "int list list"

text \<open>\<open>arr.shape[1]\<close> of a two-dimensional array kept as its list of rows.\<close>

definition shape1 :: "grid \<Rightarrow> nat" where
  "shape1 g = (case g of [] \<Rightarrow> 0 | r # _ \<Rightarrow> length r)"

text \<open>
  \<open>arr.reshape((batch_size, -1))\<close> on a one-dimensional array: numpy raises ValueError
  when the row count is zero or does not divide the size; otherwise the rows are the
  consecutive slices of equal width (row-major order).
\<close>

definition reshape_rows :: "int list \<Rightarrow> nat \<Rightarrow> py_error + grid" where
  "reshape_rows arr batch_size =
     (if batch_size = 0 \<or> length arr mod batch_size \<noteq> 0 then Inl ValueError
      else let w = length arr div batch_size
           in Inr (map (\<lambda>i. take w (drop (i * w) arr)) [0..<batch_size]))"

text \<open>\<open>range(0, stop, step)\<close> for a positive step; a zero step raises ValueError.\<close>

definition py_range :: "nat \<Rightarrow> nat \<Rightarrow> py_error + nat list" where
  "py_range stop step =
     (if step = 0 then Inl ValueError
      else Inr (map (\<lambda>k. k * step) [0..<(stop + step - 1) div step]))"

text \<open>\<open>arr[:, j]\<close> for a non-negative \<open>j\<close>: IndexError when the column does not exist.\<close>

definition column :: "grid \<Rightarrow> nat \<Rightarrow> py_error + int list" where
  "column g j =
     (if j < shape1 g then Inr (map (\<lambda>row. row ! j) g) else Inl IndexError)"

text \<open>\<open>arr[:, n : n + seq_length]\<close>: slicing clips, it never raises.\<close>

definition window :: "grid \<Rightarrow> nat \<Rightarrow> nat \<Rightarrow> grid" where
  "window g n seq_length = map (\<lambda>row. take seq_length (drop n row)) g"

text \<open>
  \<open>y = np.zeros_like(x); y[:, :-1], y[:, -1] = x[:, 1:], c\<close>. The two slice assignments
  together write every cell of \<open>y\<close>, so no zero of \<open>zeros_like\<close> survives: each row of
  \<open>y\<close> is the row of \<open>x\<close> without its first element, followed by the entry of \<open>c\<close>
  for that row.
\<close>

definition shifted :: "grid \<Rightarrow> int list \<Rightarrow> grid" where
  "shifted x c = map (\<lambda>(row, v). tl row @ [v]) (zip x c)"

text \<open>
  One iteration of the loop. The right-hand side of the tuple assignment is evaluated
  before anything is stored, so the \<open>try\<close> block either fills \<open>y\<close> from column
  \<open>n + seq_length\<close> or, on IndexError, leaves \<open>y\<close> untouched and the handler fills it
  from column \<open>0\<close>.
\<close>

definition batch_at :: "grid \<Rightarrow> nat \<Rightarrow> nat \<Rightarrow> py_error + (grid \<times> grid)" where
  "batch_at g n seq_length =
     (let x = window g n seq_length in
      case column g (n + seq_length) of
        Inr c \<Rightarrow> Inr (x, shifted x c)
      | Inl IndexError \<Rightarrow>
          (case column g 0 of
             Inr c \<Rightarrow> Inr (x, shifted x c)
           | Inl e \<Rightarrow> Inl e)
      | Inl e \<Rightarrow> Inl e)"

text \<open>The \<open>for\<close> loop over the offsets; the yielded pairs are collected in order.\<close>

fun batches_from :: "grid \<Rightarrow> nat list \<Rightarrow> nat \<Rightarrow> py_error + (grid \<times> grid) list" where
  "batches_from g [] seq_length = Inr []"
| "batches_from g (n # ns) seq_length =
     (case batch_at g n seq_length of
        Inl e \<Rightarrow> Inl e
      | Inr b \<Rightarrow>
          (case batches_from g ns seq_length of
             Inl e \<Rightarrow> Inl e
           | Inr bs \<Rightarrow> Inr (b # bs)))"

text \<open>The number of full batches, \<open>len(arr)//total_batch_size\<close>.\<close>

definition n_batches :: "int list \<Rightarrow> nat \<Rightarrow> nat \<Rightarrow> nat" where
  "n_batches arr batch_size seq_length = length arr div (batch_size * seq_length)"

definition get_batches ::
  "int list \<Rightarrow> nat \<Rightarrow> nat \<Rightarrow> py_error + (grid \<times> grid) list" where
  "get_batches arr batch_size seq_length =
     (let total_batch_size = batch_size * seq_length in
      if total_batch_size = 0 then Inl ZeroDivisionError
      else
        let arr1 = take (n_batches arr batch_size seq_length * total_batch_size) arr in
        case reshape_rows arr1 batch_size of
          Inl e \<Rightarrow> Inl e
        | Inr g \<Rightarrow>
            (case py_range (shape1 g) seq_length of
               Inl e \<Rightarrow> Inl e
             | Inr ns \<Rightarrow> batches_from g ns seq_length))"

text \<open>
  Two closed forms used in the proofs: the grid that \<open>reshape\<close> returns for the
  truncated corpus (row \<open>i\<close> is the slice of width \<open>K * seq_length\<close> starting at
  \<open>i * K * seq_length\<close>), and the pair that one loop iteration yields on a grid with
  at least one column.
\<close>

definition corpus_grid :: "int list \<Rightarrow> nat \<Rightarrow> nat \<Rightarrow> grid" where
  "corpus_grid arr batch_size seq_length =
     (let w = n_batches arr batch_size seq_length * seq_length
      in map (\<lambda>i. take w (drop (i * w) arr)) [0..<batch_size])"

definition batch_of :: "grid \<Rightarrow> nat \<Rightarrow> nat \<Rightarrow> grid \<times> grid" where
  "batch_of g n M =
     (let x = window g n M
      in (x, shifted x (map (\<lambda>row. row ! (if n + M < shape1 g then n + M else 0)) g)))"

subsection \<open>Vocabulary: \<open>int2char\<close> and \<open>char2int\<close>\<close>

text \<open>
  A Python \<open>dict\<close> built from a sequence of key/value pairs: the pairs are stored in
  order, a later pair replacing an earlier one with the same key.
\<close>

definition dict_of :: "('k \<times> 'v) list \<Rightarrow> ('k \<rightharpoonup> 'v)" where
  "dict_of kvs = fold (\<lambda>(k, v) m. m(k \<mapsto> v)) kvs Map.empty"

text \<open>\<open>d[k]\<close>: a missing key raises KeyError.\<close>

definition getitem :: "('k \<rightharpoonup> 'v) \<Rightarrow> 'k \<Rightarrow> py_error + 'v" where
  "getitem d k = (case d k of None \<Rightarrow> Inl KeyError | Some v \<Rightarrow> Inr v)"

text \<open>
  \<open>int2char = dict(enumerate(chars))\<close> and
  \<open>char2int = {ch: ii for ii, ch in int2char.items()}\<close>. The items of \<open>int2char\<close> come
  in insertion order, which is the order of \<open>enumerate(chars)\<close>. The tuple \<open>chars\<close> is
  a parameter: the notebook builds it as \<open>tuple(set(text))\<close>, some enumeration without
  repetition of the characters of the text, and \<open>CharRNN.__init__\<close> takes it as
  \<open>tokens\<close>.
\<close>

definition int2char :: "'c list \<Rightarrow> (nat \<rightharpoonup> 'c)" where
  "int2char chars = dict_of (enumerate 0 chars)"

definition char2int :: "'c list \<Rightarrow> ('c \<rightharpoonup> nat)" where
  "char2int chars = dict_of (map (\<lambda>(ii, ch). (ch, ii)) (enumerate 0 chars))"

text \<open>The two look-ups the notebook performs, \<open>char2int[ch]\<close> and \<open>int2char[ii]\<close>.\<close>

definition encode :: "'c list \<Rightarrow> 'c \<Rightarrow> py_error + nat" where
  "encode chars ch = getitem (char2int chars) ch"

definition decode :: "'c list \<Rightarrow> nat \<Rightarrow> py_error + 'c" where
  "decode chars ii = getitem (int2char chars) ii"

subsection \<open>The network as a collaborator\<close>

text \<open>
  Of \<open>CharRNN\<close> the sampler uses the character tuple, the forward pass and
  \<open>init_hidden\<close>. The forward pass is a parameter: in evaluation mode (\<open>net.eval()\<close>)
  it maps the one-hot input row and the hidden state to one row of scores and the next
  hidden state.
\<close>

record ('c, 'h) char_rnn =
  chars :: "'c list"
  forward :: "real list \<Rightarrow> 'h \<Rightarrow> real list \<times> 'h"
  init_hidden :: "nat \<Rightarrow> 'h"

text \<open>
  \<open>one_hot_encode(np.array([[x]]), n_labels)\<close>: the fancy-index assignment raises
  IndexError when \<open>x\<close> is not a label.
\<close>

definition one_hot_encode :: "nat \<Rightarrow> nat \<Rightarrow> py_error + real list" where
  "one_hot_encode x n_labels =
     (if x < n_labels then Inr ((replicate n_labels 0)[x := 1]) else Inl IndexError)"

subsection \<open>Library operations used by \<open>predict\<close>\<close>

text \<open>\<open>F.softmax(out, dim=1)\<close> on one row of scores.\<close>

definition softmax :: "real list \<Rightarrow> real list" where
  "softmax out = map (\<lambda>v. exp v / sum_list (map exp out)) out"

text \<open>
  \<open>p.topk(k)\<close> on one row: the \<open>k\<close> largest values in descending order with their
  indices; RuntimeError when \<open>k\<close> exceeds the row length. The order among equal
  values is not specified by the library; here the smaller index comes first.
\<close>

definition topk :: "real list \<Rightarrow> nat \<Rightarrow> py_error + (real list \<times> nat list)" where
  "topk p k =
     (if length p < k then Inl RuntimeError
      else let idx = take k (sort_key (\<lambda>i. - (p ! i)) [0..<length p])
           in Inr (map (\<lambda>i. p ! i) idx, idx))"

text \<open>
  \<open>.numpy().squeeze()\<close> on an array of shape \<open>(1, k)\<close> removes every axis of length
  one: the result is zero-dimensional when \<open>k = 1\<close> and one-dimensional otherwise.
\<close>

datatype 'a squeezed = Scalar 'a | Vector "'a list"

definition squeeze :: "'a list \<Rightarrow> 'a squeezed" where
  "squeeze row = (case row of [v] \<Rightarrow> Scalar v | _ \<Rightarrow> Vector row)"

text \<open>\<open>p / p.sum()\<close>.\<close>

definition normalise :: "real squeezed \<Rightarrow> real squeezed" where
  "normalise p =
     (case p of
        Scalar v \<Rightarrow> Scalar (v / v)
      | Vector ps \<Rightarrow> Vector (map (\<lambda>v. v / sum_list ps) ps))"

text \<open>
  \<open>np.random.choice(a, p=p)\<close> with one sample and replacement. A zero-dimensional
  \<open>a\<close> is read as the integer population size; the population must not be empty;
  \<open>len(p)\<close> raises TypeError on an unsized \<open>p\<close>; \<open>p\<close> must have the population's
  size, no negative entry and sum one within the tolerance, the square root of the
  single-precision machine epsilon \<open>2 ^ -23\<close> (the comparison is written on the
  squares). The draw inverts the normalised cumulative distribution at a uniform
  sample \<open>u\<close>: the index is the number of its entries not above \<open>u\<close>.
\<close>

definition cumsum :: "real list \<Rightarrow> real list" where
  "cumsum p = map (\<lambda>i. sum_list (take (Suc i) p)) [0..<length p]"

definition searchsorted_right :: "real list \<Rightarrow> real \<Rightarrow> nat" where
  "searchsorted_right cdf u = length (filter (\<lambda>c. c \<le> u) cdf)"

definition random_choice :: "nat squeezed \<Rightarrow> real squeezed \<Rightarrow> real \<Rightarrow> py_error + nat" where
  "random_choice a p u =
     (let pop_size = (case a of Scalar n \<Rightarrow> n | Vector xs \<Rightarrow> length xs) in
      if pop_size = 0 then Inl ValueError
      else
        (case p of
           Scalar v \<Rightarrow> Inl TypeError_no_len
         | Vector ps \<Rightarrow>
             (if length ps \<noteq> pop_size then Inl ValueError
              else if list_ex (\<lambda>v. v < 0) ps then Inl ValueError
              else if 1 / 2 ^ 23 < (sum_list ps - 1) ^ 2 then Inl ValueError
              else
                (let cdf = cumsum ps;
                     idx = searchsorted_right (map (\<lambda>c. c / last cdf) cdf) u
                 in (case a of
                       Scalar n \<Rightarrow> Inr idx
                     | Vector xs \<Rightarrow>
                         (if idx < length xs then Inr (xs ! idx) else Inl IndexError))))))"

text \<open>
  The global generator of \<open>np.random\<close> is an infinite sequence of uniform samples;
  drawing one returns the head and leaves the rest.
\<close>

type_synonym rng = "nat \<Rightarrow> real"

definition random_sample :: "rng \<Rightarrow> real \<times> rng" where
  "random_sample g = (g 0, \<lambda>n. g (Suc n))"

definition uniform :: "rng \<Rightarrow> bool" where
  "uniform g = (\<forall>n. 0 \<le> g n \<and> g n < 1)"

subsection \<open>\<open>predict\<close>\<close>

text \<open>
  The candidates and their weights: all characters when \<open>top_k\<close> is None, otherwise
  the \<open>top_k\<close> best (\<open>p, top_ch = p.topk(top_k); top_ch = top_ch.numpy().squeeze()\<close>).
\<close>

definition top_characters ::
  "nat \<Rightarrow> real list \<Rightarrow> nat option \<Rightarrow> py_error + (real list \<times> nat squeezed)" where
  "top_characters n_chars p top_k =
     (case top_k of
        None \<Rightarrow> Inr (p, Vector [0..<n_chars])
      | Some k \<Rightarrow>
          (case topk p k of
             Inl e \<Rightarrow> Inl e
           | Inr (pk, top_ch) \<Rightarrow> Inr (pk, squeeze top_ch)))"

text \<open>
  \<open>predict(net, char, h=None, top_k=None)\<close>. The hidden state is optional as in the
  signature; \<open>tuple([each.data for each in h])\<close> raises TypeError on None and leaves
  the values of a state unchanged. The result is the predicted character, the new
  hidden state and the generator after the draw.
\<close>

definition predict ::
  "('c, 'h) char_rnn \<Rightarrow> 'c \<Rightarrow> 'h option \<Rightarrow> nat option \<Rightarrow> rng
     \<Rightarrow> py_error + ('c \<times> 'h \<times> rng)" where
  "predict net char h top_k g =
     (case getitem (char2int (chars net)) char of
        Inl e \<Rightarrow> Inl e
      | Inr x \<Rightarrow>
     (case one_hot_encode x (length (chars net)) of
        Inl e \<Rightarrow> Inl e
      | Inr inputs \<Rightarrow>
     (case h of
        None \<Rightarrow> Inl TypeError_not_iterable
      | Some h0 \<Rightarrow>
     (case forward net inputs h0 of
        (out, h1) \<Rightarrow>
     (case top_characters (length (chars net)) (softmax out) top_k of
        Inl e \<Rightarrow> Inl e
      | Inr (p, top_ch) \<Rightarrow>
     (case random_sample g of
        (u, g1) \<Rightarrow>
     (case random_choice top_ch (normalise (squeeze p)) u of
        Inl e \<Rightarrow> Inl e
      | Inr c \<Rightarrow>
     (case getitem (int2char (chars net)) c of
        Inl e \<Rightarrow> Inl e
      | Inr ch \<Rightarrow> Inr (ch, h1, g1)))))))))"

subsection \<open>\<open>sample\<close>\<close>

text \<open>
  The first loop, \<open>for ch in prime: char, h = predict(net, ch, h, top_k=top_k)\<close>. The
  local \<open>char\<close> is unbound (None) until the first iteration has assigned it.
\<close>

fun prime_loop ::
  "('c, 'h) char_rnn \<Rightarrow> 'c list \<Rightarrow> nat option \<Rightarrow> 'c option \<Rightarrow> 'h \<Rightarrow> rng
     \<Rightarrow> py_error + ('c option \<times> 'h \<times> rng)" where
  "prime_loop net [] top_k char h g = Inr (char, h, g)"
| "prime_loop net (ch # rest) top_k char h g =
     (case predict net ch (Some h) top_k g of
        Inl e \<Rightarrow> Inl e
      | Inr (char', h', g') \<Rightarrow> prime_loop net rest top_k (Some char') h' g')"

text \<open>
  The second loop, \<open>for ii in range(size)\<close>, feeding \<open>chars[-1]\<close> back;
  \<open>chars[-1]\<close> raises IndexError on an empty list.
\<close>

fun generate_loop ::
  "('c, 'h) char_rnn \<Rightarrow> nat \<Rightarrow> nat option \<Rightarrow> 'c list \<Rightarrow> 'h \<Rightarrow> rng
     \<Rightarrow> py_error + 'c list" where
  "generate_loop net 0 top_k cs h g = Inr cs"
| "generate_loop net (Suc n) top_k cs h g =
     (if cs = [] then Inl IndexError
      else
        case predict net (last cs) (Some h) top_k g of
          Inl e \<Rightarrow> Inl e
        | Inr (char', h', g') \<Rightarrow> generate_loop net n top_k (cs @ [char']) h' g')"

text \<open>
  \<open>sample(net, size, prime, top_k)\<close>, with \<open>sz\<close> for the argument \<open>size\<close>. Reading the unbound \<open>char\<close> in
  \<open>chars.append(char)\<close> raises UnboundLocalError. The result \<open>''.join(chars)\<close> is the
  list of characters itself.
\<close>

definition sample ::
  "('c, 'h) char_rnn \<Rightarrow> nat \<Rightarrow> 'c list \<Rightarrow> nat option \<Rightarrow> rng \<Rightarrow> py_error + 'c list" where
  "sample net sz prime top_k g =
     (case prime_loop net prime top_k None (init_hidden net 1) g of
        Inl e \<Rightarrow> Inl e
      | Inr (char, h, g') \<Rightarrow>
          (case char of
             None \<Rightarrow> Inl UnboundLocalError
           | Some c \<Rightarrow> generate_loop net sz top_k (prime @ [c]) h g'))"

subsection \<open>Conditions and test data for the sampler\<close>

text \<open>
  The contract of the forward pass that the sampler relies on: one score per
  character (the output size of the final linear layer is \<open>len(self.chars)\<close>).
\<close>

definition scores_per_char :: "('c, 'h) char_rnn \<Rightarrow> bool" where
  "scores_per_char net = (\<forall>x h. length (fst (forward net x h)) = length (chars net))"

text \<open>
  The values of \<open>top_k\<close> for which every array that \<open>predict\<close> squeezes keeps one
  axis: unset with at least two characters, or between two and the number of characters.
\<close>

definition plural_top_k :: "nat \<Rightarrow> nat option \<Rightarrow> bool" where
  "plural_top_k n_chars top_k =
     (case top_k of None \<Rightarrow> 2 \<le> n_chars | Some k \<Rightarrow> 2 \<le> k \<and> k \<le> n_chars)"

text \<open>
  A network over the characters \<open>A\<close> and \<open>B\<close> whose scores always favour \<open>B\<close>, and
  a generator whose samples are all one half.
\<close>

definition always_B :: "(char, unit) char_rnn" where
  "always_B = \<lparr>chars = ''AB'', forward = (\<lambda>x h. ([0, 1], h)), init_hidden = (\<lambda>batch_size. ())\<rparr>"

definition half_rng :: rng where
  "half_rng = (\<lambda>n. 1 / 2)"

section \<open>Properties of \<open>get_batches\<close>\<close>

lemma row_end_bound:
  assumes "i < (N::nat)"
  shows "w + i * w \<le> N * w"
proof -
  have "Suc i * w \<le> N * w" using assms by (intro mult_le_mono1) simp
  then show ?thesis by simp
qed

lemma row_end_in_corpus:
  assumes "i < N"
  shows "n_batches arr N M * M + i * (n_batches arr N M * M) \<le> length arr"
proof -
  have "n_batches arr N M * M + i * (n_batches arr N M * M) \<le> N * (n_batches arr N M * M)"
    using assms by (rule row_end_bound)
  also have "\<dots> = n_batches arr N M * (N * M)" by simp
  also have "\<dots> \<le> length arr" by (simp add: n_batches_def)
  finally show ?thesis .
qed

lemma n_batches_bound:
  "n_batches arr N M * (N * M) \<le> length arr"
  by (simp add: n_batches_def)

lemma reshape_truncated:
  assumes "0 < N"
  shows "reshape_rows (take (n_batches arr N M * (N * M)) arr) N = Inr (corpus_grid arr N M)"
proof -
  let ?K = "n_batches arr N M"
  let ?a = "take (?K * (N * M)) arr"
  have len: "length ?a = N * (?K * M)"
    using n_batches_bound [of arr N M] by (simp add: ac_simps)
  have w: "length ?a div N = ?K * M" using assms len by simp
  have rows: "take (?K * M) (drop (i * (?K * M)) ?a) = take (?K * M) (drop (i * (?K * M)) arr)"
    if "i < N" for i
  proof -
    have "?K * M + i * (?K * M) \<le> N * (?K * M)" using that by (rule row_end_bound)
    then have "?K * M \<le> ?K * (N * M) - i * (?K * M)" by (simp add: ac_simps)
    then show ?thesis by (simp add: drop_take min_def del: mult_le_cancel2 mult_le_cancel1)
  qed
  show ?thesis
    unfolding reshape_rows_def corpus_grid_def Let_def
    using assms len w rows by (simp del: take_all_iff)
qed

lemma length_corpus_grid: "length (corpus_grid arr N M) = N"
  by (simp add: corpus_grid_def Let_def)

lemma length_corpus_grid_row:
  assumes "i < N"
  shows "length (corpus_grid arr N M ! i) = n_batches arr N M * M"
proof -
  let ?K = "n_batches arr N M"
  have "?K * M + i * (?K * M) \<le> length arr"
    using assms by (rule row_end_in_corpus)
  then show ?thesis using assms by (simp add: corpus_grid_def Let_def)
qed

lemma corpus_grid_nth:
  assumes "i < N" and "c < n_batches arr N M * M"
  shows "corpus_grid arr N M ! i ! c = arr ! (i * (n_batches arr N M * M) + c)"
proof -
  let ?K = "n_batches arr N M"
  have "?K * M + i * (?K * M) \<le> length arr"
    using assms(1) by (rule row_end_in_corpus)
  then show ?thesis using assms by (simp add: corpus_grid_def Let_def)
qed

lemma shape1_corpus_grid:
  assumes "0 < N"
  shows "shape1 (corpus_grid arr N M) = n_batches arr N M * M"
proof -
  have "corpus_grid arr N M \<noteq> []"
    using assms length_corpus_grid [of arr N M] by auto
  then obtain r rs where g: "corpus_grid arr N M = r # rs" by (cases "corpus_grid arr N M") auto
  then have "r = corpus_grid arr N M ! 0" by simp
  then have "length r = n_batches arr N M * M"
    using length_corpus_grid_row [OF assms, of arr M] by simp
  then show ?thesis by (simp add: shape1_def g)
qed

lemma py_range_multiple:
  assumes "0 < M"
  shows "py_range (K * M) M = Inr (map (\<lambda>k. k * M) [0..<K])"
proof -
  obtain m where m: "M = Suc m" using assms by (cases M) auto
  have "(m + K * Suc m) div Suc m = K + m div Suc m"
    by (rule div_mult_self1) simp
  moreover have "K * M + M - 1 = m + K * Suc m" by (simp add: m)
  ultimately have "(K * M + M - 1) div M = K" by (simp only: m) simp
  then show ?thesis using assms by (simp add: py_range_def)
qed

lemma batches_from_map:
  assumes "\<And>n. n \<in> set ns \<Longrightarrow> batch_at g n M = Inr (f n)"
  shows "batches_from g ns M = Inr (map f ns)"
  using assms by (induction ns) auto

lemma batch_at_eq:
  assumes "0 < shape1 g"
  shows "batch_at g n M = Inr (batch_of g n M)"
  using assms by (simp add: batch_at_def batch_of_def column_def Let_def)

lemma get_batches_loop:
  assumes "0 < N" and "0 < M"
  shows "get_batches arr N M =
    batches_from (corpus_grid arr N M) (map (\<lambda>k. k * M) [0..<n_batches arr N M]) M"
  using assms
  by (simp add: get_batches_def Let_def reshape_truncated shape1_corpus_grid py_range_multiple)

lemma get_batches_eq:
  assumes "0 < N" and "0 < M"
  shows "get_batches arr N M =
    Inr (map (\<lambda>k. batch_of (corpus_grid arr N M) (k * M) M) [0..<n_batches arr N M])"
proof (cases "n_batches arr N M = 0")
  case True
  then show ?thesis by (simp add: get_batches_loop [OF assms])
next
  case False
  then have pos: "0 < shape1 (corpus_grid arr N M)"
    using assms by (simp add: shape1_corpus_grid)
  have "batches_from (corpus_grid arr N M) (map (\<lambda>k. k * M) [0..<n_batches arr N M]) M
      = Inr (map (\<lambda>n. batch_of (corpus_grid arr N M) n M) (map (\<lambda>k. k * M) [0..<n_batches arr N M]))"
    by (rule batches_from_map) (rule batch_at_eq [OF pos])
  then show ?thesis by (simp add: get_batches_loop [OF assms] comp_def)
qed


lemma window_row:
  assumes "i < length g"
  shows "window g n M ! i = take M (drop n (g ! i))"
  using assms by (simp add: window_def)

lemma shifted_row:
  assumes "i < length x" and "length c = length x"
  shows "shifted x c ! i = tl (x ! i) @ [c ! i]"
  using assms by (simp add: shifted_def)

lemma batch_of_rows:
  assumes "i < N" and "k < n_batches arr N M" and "0 < M"
  defines "K \<equiv> n_batches arr N M"
  defines "b \<equiv> batch_of (corpus_grid arr N M) (k * M) M"
  shows "length (fst b) = N" and "length (snd b) = N"
    and "length (fst b ! i) = M" and "length (snd b ! i) = M"
    and "\<forall>j<M. fst b ! i ! j = arr ! (i * (K * M) + k * M + j)"
    and "\<forall>j. Suc j < M \<longrightarrow> snd b ! i ! j = fst b ! i ! Suc j"
    and "snd b ! i ! (M - 1) =
          (if k * M + M < K * M then arr ! (i * (K * M) + (k * M + M)) else arr ! (i * (K * M)))"
proof -
  let ?g = "corpus_grid arr N M"
  let ?c = "map (\<lambda>row. row ! (if k * M + M < shape1 ?g then k * M + M else 0)) ?g"
  have N: "0 < N" using assms(1) by simp
  have lg: "length ?g = N" by (rule length_corpus_grid)
  have lr: "length (?g ! i) = K * M"
    unfolding K_def using assms(1) by (rule length_corpus_grid_row)
  have sh: "shape1 ?g = K * M" unfolding K_def using N by (rule shape1_corpus_grid)
  have "Suc k \<le> K" using assms(2) by (simp add: K_def)
  then have "Suc k * M \<le> K * M" by (rule mult_le_mono1)
  then have fit: "k * M + M \<le> K * M" by simp
  have KM: "0 < K * M" using \<open>Suc k \<le> K\<close> assms(3) by simp
  have fb: "fst b = window ?g (k * M) M" by (simp add: b_def batch_of_def Let_def)
  have sb: "snd b = shifted (window ?g (k * M) M) ?c" by (simp add: b_def batch_of_def Let_def)
  show "length (fst b) = N" by (simp add: fb window_def lg)
  show "length (snd b) = N" by (simp add: sb shifted_def window_def lg)
  have xi: "fst b ! i = take M (drop (k * M) (?g ! i))"
    using assms(1) by (simp add: fb window_row lg)
  show lx: "length (fst b ! i) = M" using fit by (simp add: xi lr)
  have yi: "snd b ! i = tl (fst b ! i) @ [?c ! i]"
    unfolding sb fb using assms(1) by (intro shifted_row) (simp_all add: window_def lg)
  show "length (snd b ! i) = M" using lx assms(3) by (simp add: yi)
  show xs: "\<forall>j<M. fst b ! i ! j = arr ! (i * (K * M) + k * M + j)"
  proof (intro allI impI)
    fix j assume j: "j < M"
    then have c: "k * M + j < n_batches arr N M * M" using fit by (simp add: K_def)
    have "k * M \<le> length (?g ! i)" using fit by (simp only: lr)
    then have "fst b ! i ! j = ?g ! i ! (k * M + j)" using j by (simp add: xi)
    also have "\<dots> = arr ! (i * (K * M) + (k * M + j))"
      unfolding K_def using assms(1) c by (rule corpus_grid_nth)
    finally show "fst b ! i ! j = arr ! (i * (K * M) + k * M + j)" by (simp add: add.assoc)
  qed
  show "\<forall>j. Suc j < M \<longrightarrow> snd b ! i ! j = fst b ! i ! Suc j"
    using lx by (auto simp add: yi nth_append nth_tl)
  have "snd b ! i ! (M - 1) = ?c ! i" using lx by (simp add: yi nth_append)
  also have "\<dots> = ?g ! i ! (if k * M + M < K * M then k * M + M else 0)"
    using assms(1) by (simp add: lg sh)
  also have "\<dots> = arr ! (i * (K * M) + (if k * M + M < K * M then k * M + M else 0))"
    unfolding K_def using assms(1)
    by (rule corpus_grid_nth) (use KM in \<open>simp add: K_def\<close>)
  finally show "snd b ! i ! (M - 1) =
          (if k * M + M < K * M then arr ! (i * (K * M) + (k * M + M)) else arr ! (i * (K * M)))"
    by simp
qed

text \<open>
  Claim C1. For positive \<open>N\<close> and \<open>M\<close>, \<open>get_batches\<close> returns windows of \<open>N\<close>
  rows and \<open>M\<close> columns. In the window number \<open>k\<close> (offset \<open>n = k * M\<close>), row \<open>i\<close> of
  the input is the grid row \<open>i\<close> from column \<open>n\<close> on, where the grid cell
  \<open>(i, c)\<close> is \<open>arr ! (i * (K * M) + c)\<close> with \<open>K = n_batches arr N M\<close>; the target
  is the input shifted by one, \<open>target[i][j] = input[i][j+1]\<close> for \<open>j + 1 < M\<close>; and
  the last target column is the grid column \<open>n + M\<close> when that column exists and the
  grid column \<open>0\<close> otherwise.
\<close>

theorem get_batches_targets_shifted:
  assumes "0 < N" and "0 < M"
  shows "\<exists>ws. get_batches arr N M = Inr ws \<and>
    (\<forall>k<length ws. \<forall>i<N.
       length (fst (ws ! k)) = N \<and> length (snd (ws ! k)) = N \<and>
       length (fst (ws ! k) ! i) = M \<and> length (snd (ws ! k) ! i) = M \<and>
       (\<forall>j. Suc j < M \<longrightarrow> snd (ws ! k) ! i ! j = fst (ws ! k) ! i ! Suc j) \<and>
       (\<forall>j<M. fst (ws ! k) ! i ! j
                = arr ! (i * (n_batches arr N M * M) + k * M + j)) \<and>
       snd (ws ! k) ! i ! (M - 1) =
         (if k * M + M < n_batches arr N M * M
          then arr ! (i * (n_batches arr N M * M) + (k * M + M))
          else arr ! (i * (n_batches arr N M * M))))"
proof -
  let ?ws = "map (\<lambda>k. batch_of (corpus_grid arr N M) (k * M) M) [0..<n_batches arr N M]"
  have eq: "get_batches arr N M = Inr ?ws" using assms by (rule get_batches_eq)
  have "\<forall>k<length ?ws. \<forall>i<N.
       length (fst (?ws ! k)) = N \<and> length (snd (?ws ! k)) = N \<and>
       length (fst (?ws ! k) ! i) = M \<and> length (snd (?ws ! k) ! i) = M \<and>
       (\<forall>j. Suc j < M \<longrightarrow> snd (?ws ! k) ! i ! j = fst (?ws ! k) ! i ! Suc j) \<and>
       (\<forall>j<M. fst (?ws ! k) ! i ! j
                = arr ! (i * (n_batches arr N M * M) + k * M + j)) \<and>
       snd (?ws ! k) ! i ! (M - 1) =
         (if k * M + M < n_batches arr N M * M
          then arr ! (i * (n_batches arr N M * M) + (k * M + M))
          else arr ! (i * (n_batches arr N M * M)))"
  proof (intro allI impI)
    fix k i assume k: "k < length ?ws" and i: "i < N"
    then have k': "k < n_batches arr N M" by simp
    then have nth: "?ws ! k = batch_of (corpus_grid arr N M) (k * M) M" by simp
    show "length (fst (?ws ! k)) = N \<and> length (snd (?ws ! k)) = N \<and>
       length (fst (?ws ! k) ! i) = M \<and> length (snd (?ws ! k) ! i) = M \<and>
       (\<forall>j. Suc j < M \<longrightarrow> snd (?ws ! k) ! i ! j = fst (?ws ! k) ! i ! Suc j) \<and>
       (\<forall>j<M. fst (?ws ! k) ! i ! j
                = arr ! (i * (n_batches arr N M * M) + k * M + j)) \<and>
       snd (?ws ! k) ! i ! (M - 1) =
         (if k * M + M < n_batches arr N M * M
          then arr ! (i * (n_batches arr N M * M) + (k * M + M))
          else arr ! (i * (n_batches arr N M * M)))"
      unfolding nth using batch_of_rows [OF i k' assms(2)] by blast
  qed
  with eq show ?thesis by blast
qed

theorem get_batches_targets_shifted_witness:
  "0 < (2::nat) \<and> 0 < (3::nat) \<and>
   (\<exists>ws. get_batches [0,1,2,0,1,2,0,1,2,0,1,2] 2 3 = Inr ws \<and>
     (\<forall>k<length ws. \<forall>i<2. \<forall>j. Suc j < 3 \<longrightarrow>
        snd (ws ! k) ! i ! j = fst (ws ! k) ! i ! Suc j))"
proof -
  have N: "0 < (2::nat)" and M: "0 < (3::nat)" by simp_all
  show ?thesis
    using get_batches_targets_shifted [OF N M, of "[0,1,2,0,1,2,0,1,2,0,1,2]"] N M
    by blast
qed

text \<open>
  Claim C2. For positive \<open>N\<close> and \<open>M\<close>, \<open>get_batches\<close> returns exactly
  \<open>K = len(arr) // (N * M)\<close> windows, and the result does not depend on any corpus
  element at index \<open>K * N * M\<close> or beyond: every corpus with the same \<open>K\<close> and the
  same first \<open>K * N * M\<close> elements gives the same windows.
\<close>

theorem get_batches_count_and_reads:
  assumes "0 < N" and "0 < M"
  shows "\<exists>ws. get_batches arr N M = Inr ws \<and>
     length ws = length arr div (N * M) \<and>
     (\<forall>arr'. length arr' div (N * M) = length arr div (N * M) \<and>
             take (length arr div (N * M) * N * M) arr'
               = take (length arr div (N * M) * N * M) arr
         \<longrightarrow> get_batches arr' N M = Inr ws)"
proof -
  let ?ws = "map (\<lambda>k. batch_of (corpus_grid arr N M) (k * M) M) [0..<n_batches arr N M]"
  have eq: "get_batches arr N M = Inr ?ws" using assms by (rule get_batches_eq)
  have len: "length ?ws = length arr div (N * M)" by (simp add: n_batches_def)
  have same: "get_batches arr' N M = get_batches arr N M"
    if "length arr' div (N * M) = length arr div (N * M)"
      and "take (length arr div (N * M) * N * M) arr'
               = take (length arr div (N * M) * N * M) arr" for arr'
  proof -
    have "n_batches arr' N M = n_batches arr N M"
      using that(1) by (simp only: n_batches_def)
    moreover have "take (n_batches arr N M * (N * M)) arr' = take (n_batches arr N M * (N * M)) arr"
      using that(2) by (simp only: n_batches_def mult.assoc)
    ultimately show ?thesis by (simp only: get_batches_def Let_def)
  qed
  show ?thesis
  proof (intro exI [of _ ?ws] conjI allI impI)
    show "get_batches arr N M = Inr ?ws" by (rule eq)
    show "length ?ws = length arr div (N * M)" by (rule len)
    fix arr'
    assume "length arr' div (N * M) = length arr div (N * M) \<and>
             take (length arr div (N * M) * N * M) arr'
               = take (length arr div (N * M) * N * M) arr"
    then have "get_batches arr' N M = get_batches arr N M" by (intro same) simp_all
    then show "get_batches arr' N M = Inr ?ws" by (simp only: eq)
  qed
qed

theorem get_batches_count_and_reads_witness:
  "0 < (2::nat) \<and> 0 < (3::nat) \<and>
   (\<exists>ws. get_batches [0,1,2,3,4,5,6,7] 2 3 = Inr ws \<and> length ws = 1 \<and>
         get_batches [0,1,2,3,4,5,9,9,9] 2 3 = Inr ws)"
proof -
  have N: "0 < (2::nat)" and M: "0 < (3::nat)" by simp_all
  obtain ws where ws: "get_batches [0,1,2,3,4,5,6,7] 2 3 = Inr ws"
    and len: "length ws = length [0,1,2,3,4,5,6,7::int] div (2 * 3)"
    and ind: "\<forall>arr'. length arr' div (2 * 3) = length [0,1,2,3,4,5,6,7::int] div (2 * 3) \<and>
             take (length [0,1,2,3,4,5,6,7::int] div (2 * 3) * 2 * 3) arr'
               = take (length [0,1,2,3,4,5,6,7::int] div (2 * 3) * 2 * 3) [0,1,2,3,4,5,6,7]
         \<longrightarrow> get_batches arr' 2 3 = Inr ws"
    using get_batches_count_and_reads [OF N M, of "[0,1,2,3,4,5,6,7]"] by blast
  have "length ws = 1" using len by simp
  moreover have "get_batches [0,1,2,3,4,5,9,9,9] 2 3 = Inr ws"
    using ind by simp
  ultimately show ?thesis using ws by simp
qed

text \<open>
  Claim C3. A corpus shorter than \<open>N * M\<close> gives the empty sequence of windows, a
  normal result and not an exception.
\<close>

theorem get_batches_degenerate:
  assumes "length arr < N * M"
  shows "get_batches arr N M = Inr []"
proof -
  have "0 < N" and "0 < M" using assms by (cases N; cases M; simp)+
  moreover have "n_batches arr N M = 0" using assms by (simp add: n_batches_def)
  ultimately show ?thesis by (simp add: get_batches_eq)
qed

theorem get_batches_degenerate_witness:
  "length [0,1,2,3,4::int] < 2 * 3 \<and> get_batches [0,1,2,3,4] 2 3 = Inr []"
proof -
  have short: "length [0,1,2,3,4::int] < 2 * 3" by simp
  show ?thesis using get_batches_degenerate [OF short] short by simp
qed

text \<open>
  Claim C4. For the corpus \<open>[0,1,2,0,1,2,0,1,2,0,1,2]\<close> with \<open>N = 2\<close> and \<open>M = 3\<close>,
  \<open>K = 2\<close> and the first window has the input rows \<open>[[0,1,2],[0,1,2]]\<close> and the target
  rows \<open>[[1,2,0],[1,2,0]]\<close>.
\<close>

theorem get_batches_abc:
  "n_batches [0,1,2,0,1,2,0,1,2,0,1,2] 2 3 = 2 \<and>
   get_batches [0,1,2,0,1,2,0,1,2,0,1,2] 2 3 =
     Inr [([[0,1,2],[0,1,2]], [[1,2,0],[1,2,0]]),
          ([[0,1,2],[0,1,2]], [[1,2,0],[1,2,0]])]"
  by code_simp

section \<open>Properties of the vocabulary\<close>

lemma dict_of_rev: "dict_of kvs = map_of (rev kvs)"
proof -
  have "fold (\<lambda>(k, v) m. m(k \<mapsto> v)) kvs Map.empty
        = foldr (\<lambda>(k, v) m. m(k \<mapsto> v)) (rev kvs) Map.empty"
    by (simp add: foldr_conv_fold)
  also have "\<dots> = Map.empty ++ map_of (rev kvs)"
    by (rule map_add_map_of_foldr [symmetric])
  finally show ?thesis by (simp add: dict_of_def)
qed

lemma int2char_eq: "int2char cs i = (if i < length cs then Some (cs ! i) else None)"
proof (cases "int2char cs i")
  case None
  then have "map_of (rev (enumerate 0 cs)) i = None"
    by (simp only: int2char_def dict_of_rev)
  then have "i \<notin> fst ` set (rev (enumerate 0 cs))"
    by (rule iffD1 [OF map_of_eq_None_iff])
  moreover have "fst ` set (rev (enumerate 0 cs)) = set (map fst (enumerate 0 cs))"
    by (simp only: set_map set_rev)
  ultimately have "\<not> i < length cs" by simp
  with None show ?thesis by simp
next
  case (Some c)
  then have "(i, c) \<in> set (rev (enumerate 0 cs))"
    unfolding int2char_def dict_of_rev by (rule map_of_SomeD)
  then have "i < length cs \<and> c = cs ! i" by (simp add: in_set_enumerate_eq)
  with Some show ?thesis by simp
qed

lemma char2int_Some:
  assumes "char2int cs c = Some i"
  shows "i < length cs \<and> cs ! i = c"
proof -
  have "(c, i) \<in> set (rev (map (\<lambda>(ii, ch). (ch, ii)) (enumerate 0 cs)))"
    using assms unfolding char2int_def dict_of_rev by (rule map_of_SomeD)
  then have "(i, c) \<in> set (enumerate 0 cs)" by auto
  then show ?thesis by (simp add: in_set_enumerate_eq)
qed

lemma char2int_None_iff: "char2int cs c = None \<longleftrightarrow> c \<notin> set cs"
proof -
  have "fst ` set (rev (map (\<lambda>(ii, ch). (ch, ii)) (enumerate 0 cs))) = snd ` set (enumerate 0 cs)"
    by (force simp: image_iff)
  also have "\<dots> = set (map snd (enumerate 0 cs))" by (simp only: set_map)
  also have "\<dots> = set cs" by (simp only: map_snd_enumerate)
  finally show ?thesis
    by (simp only: char2int_def dict_of_rev map_of_eq_None_iff)
qed

lemma getitem_char2int:
  "getitem (char2int cs) c = Inl KeyError \<and> c \<notin> set cs \<or>
   (\<exists>x. getitem (char2int cs) c = Inr x \<and> x < length cs \<and> cs ! x = c)"
proof (cases "char2int cs c")
  case None
  then show ?thesis using char2int_None_iff [of cs c] by (simp add: getitem_def)
next
  case (Some x)
  then show ?thesis using char2int_Some [OF Some] by (simp add: getitem_def)
qed

lemma getitem_int2char:
  "x < length cs \<Longrightarrow> getitem (int2char cs) x = Inr (cs ! x)"
  by (simp add: getitem_def int2char_eq)

lemma predict_unknown_char:
  assumes "ch \<notin> set (chars net)"
  shows "predict net ch h top_k g = Inl KeyError"
proof -
  have "char2int (chars net) ch = None" using assms by (simp add: char2int_None_iff)
  then have "getitem (char2int (chars net)) ch = Inl KeyError" by (simp add: getitem_def)
  then show ?thesis by (simp add: predict_def)
qed

text \<open>
  Claim C5. For every character \<open>c\<close> of the vocabulary, decoding the code of \<open>c\<close>
  gives \<open>c\<close> back (\<open>int2char[char2int[c]] = c\<close>). For a character outside the
  vocabulary the look-up \<open>char2int[c]\<close> raises KeyError (the condition the
  specification calls UnknownCharacter) and returns no substitute value; \<open>predict\<close>,
  which starts with this look-up, raises the same KeyError.
\<close>

theorem decode_encode_roundtrip:
  "(c \<in> set cs \<longrightarrow> (\<exists>i. encode cs c = Inr i \<and> decode cs i = Inr c)) \<and>
   (c \<notin> set cs \<longrightarrow> encode cs c = Inl KeyError) \<and>
   (c \<notin> set (chars net) \<longrightarrow> predict net c h top_k g = Inl KeyError)"
proof (intro conjI impI)
  assume "c \<in> set cs"
  then obtain i where i: "char2int cs c = Some i"
    using char2int_None_iff [of cs c] by (cases "char2int cs c") auto
  then have "i < length cs \<and> cs ! i = c" by (rule char2int_Some)
  then have "decode cs i = Inr c" by (simp add: decode_def getitem_def int2char_eq)
  moreover have "encode cs c = Inr i" using i by (simp add: encode_def getitem_def)
  ultimately show "\<exists>i. encode cs c = Inr i \<and> decode cs i = Inr c" by blast
next
  assume "c \<notin> set cs"
  then have "char2int cs c = None" by (simp add: char2int_None_iff)
  then show "encode cs c = Inl KeyError" by (simp add: encode_def getitem_def)
next
  assume "c \<notin> set (chars net)"
  then show "predict net c h top_k g = Inl KeyError" by (rule predict_unknown_char)
qed

theorem decode_encode_roundtrip_witness:
  "CHR ''b'' \<in> set ''abca'' \<and>
   (\<exists>i. encode ''abca'' CHR ''b'' = Inr i \<and> decode ''abca'' i = Inr CHR ''b'') \<and>
   CHR ''z'' \<notin> set ''abca'' \<and> encode ''abca'' CHR ''z'' = Inl KeyError \<and>
   CHR ''Z'' \<notin> set (chars always_B) \<and>
   predict always_B CHR ''Z'' (Some ()) None half_rng = Inl KeyError"
proof -
  have b: "CHR ''b'' \<in> set ''abca''" and z: "CHR ''z'' \<notin> set ''abca''"
    and Z: "CHR ''Z'' \<notin> set (chars always_B)"
    by (simp_all add: always_B_def)
  show ?thesis
    using decode_encode_roundtrip [of "CHR ''b''" "''abca''" always_B]
      decode_encode_roundtrip [of "CHR ''z''" "''abca''" always_B]
      decode_encode_roundtrip [of "CHR ''Z''" "''abca''" always_B "Some ()" None half_rng]
      b z Z
    by blast
qed

section \<open>Properties of \<open>predict\<close> and \<open>sample\<close>\<close>

subsection \<open>Library operations\<close>

lemma sum_list_pos_real:
  fixes xs :: "real list"
  assumes "xs \<noteq> []" and "\<And>x. x \<in> set xs \<Longrightarrow> 0 < x"
  shows "0 < sum_list xs"
  using assms
proof (induction xs)
  case Nil
  then show ?case by simp
next
  case (Cons x xs)
  have "0 < x" using Cons.prems(2) by simp
  moreover have "0 \<le> sum_list xs"
    using Cons.prems(2) by (intro sum_list_nonneg) (simp add: less_imp_le)
  ultimately show ?case by simp
qed

lemma length_softmax: "length (softmax out) = length out"
  by (simp add: softmax_def)

lemma softmax_pos:
  assumes "v \<in> set (softmax out)"
  shows "0 < v"
proof -
  from assms obtain w where w: "w \<in> set out" and v: "v = exp w / sum_list (map exp out)"
    by (auto simp: softmax_def)
  have "out \<noteq> []" using w by auto
  then have "0 < sum_list (map exp out)"
    by (intro sum_list_pos_real) auto
  then show ?thesis by (simp add: v)
qed

lemma topk_Inr:
  assumes "k \<le> length p"
  shows "\<exists>idx. topk p k = Inr (map (\<lambda>i. p ! i) idx, idx) \<and> length idx = k \<and>
           set idx \<subseteq> {0..<length p}"
proof -
  let ?idx = "take k (sort_key (\<lambda>i. - (p ! i)) [0..<length p])"
  have "topk p k = Inr (map (\<lambda>i. p ! i) ?idx, ?idx)"
    using assms by (simp add: topk_def Let_def)
  moreover have "length ?idx = k" using assms by simp
  moreover have "set ?idx \<subseteq> set (sort_key (\<lambda>i. - (p ! i)) [0..<length p])"
    by (rule set_take_subset)
  then have "set ?idx \<subseteq> {0..<length p}" by simp
  ultimately show ?thesis by blast
qed

lemma topk_cases:
  "topk p k = Inl RuntimeError \<or>
   (\<exists>idx. topk p k = Inr (map (\<lambda>i. p ! i) idx, idx) \<and> length idx = k \<and>
           set idx \<subseteq> {0..<length p})"
proof (cases "k \<le> length p")
  case True
  then show ?thesis using topk_Inr by blast
next
  case False
  then show ?thesis by (simp add: topk_def)
qed

lemma squeeze_singleton: "length row = 1 \<Longrightarrow> squeeze row = Scalar (hd row)"
  by (cases row) (auto simp: squeeze_def split: list.splits)

lemma squeeze_Vector: "length row \<noteq> 1 \<Longrightarrow> squeeze row = Vector row"
  by (cases row) (auto simp: squeeze_def split: list.splits)

lemma random_choice_Scalar_p: "\<exists>e. random_choice a (normalise (Scalar v)) u = Inl e"
  by (simp add: random_choice_def normalise_def Let_def)

lemma sum_list_normalised:
  fixes ps :: "real list"
  assumes "sum_list ps \<noteq> 0"
  shows "sum_list (map (\<lambda>v. v / sum_list ps) ps) = 1"
proof -
  have "sum_list (map (\<lambda>v. v * inverse (sum_list ps)) ps) = sum_list ps * inverse (sum_list ps)"
    using sum_list_mult_const [of "\<lambda>v. v" "inverse (sum_list ps)" ps] by simp
  then show ?thesis using assms by (simp add: divide_inverse)
qed

lemma last_cumsum:
  assumes "p \<noteq> []"
  shows "last (cumsum p) = sum_list p"
proof -
  have "[0..<length p] \<noteq> []" using assms by simp
  then have "last (cumsum p) = sum_list (take (Suc (last [0..<length p])) p)"
    unfolding cumsum_def by (simp add: last_map)
  also have "last [0..<length p] = length p - 1" using assms by simp
  finally show ?thesis using assms by simp
qed

lemma random_choice_Vector:
  assumes "xs \<noteq> []" and "length ps = length xs"
    and pos: "\<And>v. v \<in> set ps \<Longrightarrow> 0 < v"
    and u: "u < 1"
  shows "\<exists>c. random_choice (Vector xs) (normalise (Vector ps)) u = Inr c \<and> c \<in> set xs"
proof -
  let ?q = "map (\<lambda>v. v / sum_list ps) ps"
  have ps: "ps \<noteq> []" using assms(1,2) by auto
  have s: "0 < sum_list ps" using ps pos by (rule sum_list_pos_real)
  have q: "?q \<noteq> []" using ps by simp
  have one: "sum_list ?q = 1" using s by (intro sum_list_normalised) simp
  have nonneg: "\<not> list_ex (\<lambda>v. v < 0) ?q"
    using pos s by (auto simp: list_ex_iff not_less intro!: divide_nonneg_pos less_imp_le)
  have lastc: "last (cumsum ?q) = 1" using last_cumsum [OF q] one by simp
  have cne: "cumsum ?q \<noteq> []" using q by (simp add: cumsum_def)
  let ?cdf = "map (\<lambda>c. c / last (cumsum ?q)) (cumsum ?q)"
  have cdf: "?cdf = cumsum ?q" by (simp only: lastc) simp
  have "last (cumsum ?q) \<in> set (cumsum ?q)" using cne by (rule last_in_set)
  then have "(1::real) \<in> set ?cdf" using cdf lastc by simp
  moreover have "\<not> (1::real) \<le> u" using u by simp
  ultimately have "length (filter (\<lambda>c. c \<le> u) ?cdf) < length ?cdf"
    by (rule length_filter_less)
  then have idx: "searchsorted_right ?cdf u < length xs"
    using assms(2) by (simp add: searchsorted_right_def cumsum_def)
  have "random_choice (Vector xs) (normalise (Vector ps)) u
        = Inr (xs ! searchsorted_right ?cdf u)"
    using assms(1,2) nonneg one idx
    by (simp add: random_choice_def normalise_def Let_def)
  moreover have "xs ! searchsorted_right ?cdf u \<in> set xs" using idx by simp
  ultimately show ?thesis by blast
qed

lemma getitem_Inl: "getitem d k = Inl e \<Longrightarrow> e = KeyError"
  by (auto simp: getitem_def split: option.splits)

lemma one_hot_encode_Inl: "one_hot_encode x n = Inl e \<Longrightarrow> e = IndexError"
  by (auto simp: one_hot_encode_def split: if_splits)

lemma top_characters_Inl: "top_characters n p k = Inl e \<Longrightarrow> e = RuntimeError"
  by (cases k) (simp_all add: top_characters_def topk_def Let_def split: if_splits)

lemma random_choice_Inl:
  "random_choice a p u = Inl e \<Longrightarrow> e = ValueError \<or> e = TypeError_no_len \<or> e = IndexError"
  by (cases a; cases p) (simp_all add: random_choice_def Let_def split: if_splits)

subsection \<open>One call of \<open>predict\<close>\<close>

lemma predict_Inl:
  assumes "predict net ch (Some h) k g = Inl e"
  shows "e \<noteq> TypeError_not_iterable"
proof (cases "getitem (char2int (chars net)) ch")
  case (Inl e')
  then show ?thesis using assms getitem_Inl [OF Inl] by (simp add: predict_def)
next
  case x: (Inr x)
  show ?thesis
  proof (cases "one_hot_encode x (length (chars net))")
    case (Inl e')
    then show ?thesis using assms one_hot_encode_Inl [OF Inl] by (simp add: predict_def x)
  next
    case inputs: (Inr inputs)
    obtain out h1 where f: "forward net inputs h = (out, h1)" by (cases "forward net inputs h")
    obtain u g1 where r: "random_sample g = (u, g1)" by (cases "random_sample g")
    show ?thesis
    proof (cases "top_characters (length (chars net)) (softmax out) k")
      case (Inl e')
      then show ?thesis
        using assms top_characters_Inl [OF Inl] by (simp add: predict_def x inputs f)
    next
      case t: (Inr pt)
      obtain p top_ch where pt: "pt = (p, top_ch)" by (cases pt)
      show ?thesis
      proof (cases "random_choice top_ch (normalise (squeeze p)) u")
        case (Inl e')
        then show ?thesis
          using assms random_choice_Inl [OF Inl]
          by (auto simp add: predict_def x inputs f t pt r)
      next
        case c: (Inr c)
        show ?thesis
        proof (cases "getitem (int2char (chars net)) c")
          case (Inl e')
          then show ?thesis
            using assms getitem_Inl [OF Inl] by (simp add: predict_def x inputs f t pt r c)
        next
          case (Inr c')
          then show ?thesis using assms by (simp add: predict_def x inputs f t pt r c)
        qed
      qed
    qed
  qed
qed

lemma predict_None:
  "predict net ch None k g =
     (case char2int (chars net) ch of
        None \<Rightarrow> Inl KeyError
      | Some x \<Rightarrow> Inl TypeError_not_iterable)"
proof (cases "char2int (chars net) ch")
  case None
  then have "getitem (char2int (chars net)) ch = Inl KeyError" by (simp add: getitem_def)
  then show ?thesis unfolding predict_def by (simp add: None)
next
  case (Some x)
  then have "x < length (chars net)" by (rule char2int_Some [THEN conjunct1])
  then obtain inputs where "one_hot_encode x (length (chars net)) = Inr inputs"
    by (simp add: one_hot_encode_def)
  moreover have "getitem (char2int (chars net)) ch = Inr x" using Some by (simp add: getitem_def)
  ultimately show ?thesis unfolding predict_def by (simp add: Some)
qed

lemma top_characters_one:
  "top_characters n p (Some 1) = Inl RuntimeError \<or>
   (\<exists>v i. top_characters n p (Some 1) = Inr ([v], Scalar i))"
proof -
  consider "topk p 1 = Inl RuntimeError"
    | idx where "topk p 1 = Inr (map (\<lambda>i. p ! i) idx, idx)" and "length idx = 1"
    using topk_cases [of p 1] by blast
  then show ?thesis
  proof cases
    case 1
    then show ?thesis by (simp add: top_characters_def)
  next
    case 2
    then obtain i where "idx = [i]" by (cases idx) auto
    with 2 show ?thesis by (simp add: top_characters_def squeeze_def)
  qed
qed

lemma predict_top_k_one_raises: "\<exists>e. predict net ch h (Some 1) g = Inl e"
proof (cases "getitem (char2int (chars net)) ch")
  case (Inl e)
  then show ?thesis by (simp add: predict_def)
next
  case x: (Inr x)
  show ?thesis
  proof (cases "one_hot_encode x (length (chars net))")
    case (Inl e)
    then show ?thesis by (simp add: predict_def x)
  next
    case inputs: (Inr inputs)
    show ?thesis
    proof (cases h)
      case None
      then show ?thesis by (simp add: predict_def x inputs)
    next
      case (Some h0)
      obtain out h1 where f: "forward net inputs h0 = (out, h1)" by (cases "forward net inputs h0")
      obtain u g1 where r: "random_sample g = (u, g1)" by (cases "random_sample g")
      consider "top_characters (length (chars net)) (softmax out) (Some 1) = Inl RuntimeError"
        | v i where "top_characters (length (chars net)) (softmax out) (Some 1) = Inr ([v], Scalar i)"
        using top_characters_one by blast
      then show ?thesis
      proof cases
        case 1
        then show ?thesis by (simp add: predict_def x inputs Some f)
      next
        case 2
        obtain e where "random_choice (Scalar i) (normalise (Scalar v)) u = Inl e"
          using random_choice_Scalar_p by blast
        then show ?thesis
          by (auto simp add: predict_def x inputs Some f 2 r squeeze_def simp del: One_nat_def)
      qed
    qed
  qed
qed

lemma top_characters_plural:
  assumes "plural_top_k n k" and "length p = n"
  shows "\<exists>ps xs. top_characters n p k = Inr (ps, Vector xs) \<and> length ps = length xs \<and>
           2 \<le> length xs \<and> set ps \<subseteq> set p \<and> set xs \<subseteq> {0..<n}"
proof (cases k)
  case None
  then show ?thesis using assms by (auto simp: top_characters_def plural_top_k_def)
next
  case (Some m)
  then have m: "2 \<le> m" "m \<le> length p" using assms by (simp_all add: plural_top_k_def)
  then obtain idx where t: "topk p m = Inr (map (\<lambda>i. p ! i) idx, idx)"
    and l: "length idx = m" and sub: "set idx \<subseteq> {0..<length p}"
    using topk_Inr by blast
  have "squeeze idx = Vector idx" using l m by (intro squeeze_Vector) simp
  moreover have "set (map (\<lambda>i. p ! i) idx) \<subseteq> set p" using sub by auto
  ultimately show ?thesis using t l m sub assms(2) Some
    by (auto simp: top_characters_def)
qed

lemma predict_plural:
  assumes ch: "ch \<in> set (chars net)"
    and shape: "scores_per_char net"
    and k: "plural_top_k (length (chars net)) k"
    and u: "fst (random_sample g) < 1"
  shows "\<exists>c h'. predict net ch (Some h) k g = Inr (c, h', snd (random_sample g)) \<and>
           c \<in> set (chars net)"
proof -
  obtain x where x: "getitem (char2int (chars net)) ch = Inr x" and xl: "x < length (chars net)"
    using getitem_char2int [of "chars net" ch] ch by auto
  obtain inputs where inputs: "one_hot_encode x (length (chars net)) = Inr inputs"
    using xl by (simp add: one_hot_encode_def)
  obtain out h1 where f: "forward net inputs h = (out, h1)" by (cases "forward net inputs h")
  have "length (fst (forward net inputs h)) = length (chars net)"
    using shape by (simp add: scores_per_char_def)
  then have "length out = length (chars net)" by (simp add: f)
  then have lp: "length (softmax out) = length (chars net)" by (simp add: length_softmax)
  obtain ps xs where t: "top_characters (length (chars net)) (softmax out) k = Inr (ps, Vector xs)"
    and l: "length ps = length xs" and two: "2 \<le> length xs"
    and pss: "set ps \<subseteq> set (softmax out)" and xss: "set xs \<subseteq> {0..<length (chars net)}"
    using top_characters_plural [OF k lp] by blast
  have sq: "squeeze ps = Vector ps" using l two by (intro squeeze_Vector) simp
  obtain u0 g1 where r: "random_sample g = (u0, g1)" by (cases "random_sample g")
  have "xs \<noteq> []" using two by auto
  moreover have "\<And>v. v \<in> set ps \<Longrightarrow> 0 < v" using pss softmax_pos by blast
  moreover have "u0 < 1" using u r by simp
  ultimately obtain c where c: "random_choice (Vector xs) (normalise (Vector ps)) u0 = Inr c"
    and cin: "c \<in> set xs"
    using random_choice_Vector [of xs ps u0] l by blast
  have cl: "c < length (chars net)" using cin xss by auto
  then have "getitem (int2char (chars net)) c = Inr (chars net ! c)" by (rule getitem_int2char)
  then have "predict net ch (Some h) k g = Inr (chars net ! c, h1, g1)"
    by (simp add: predict_def x inputs f t r sq c)
  then show ?thesis using cl r by simp
qed

lemma topk_always_B:
  "topk (softmax [0, 1]) 1 = Inr ([exp 1 / (1 + exp 1)], [1])"
proof -
  have "\<not> exp (1::real) \<le> 1" by simp
  then have "\<not> exp (1::real) / (1 + exp 1) \<le> 1 / (1 + exp 1)"
    by (simp add: divide_le_cancel add_pos_pos)
  then have "sort_key (\<lambda>i. - (softmax [0, 1] ! i)) [0, 1] = [1, 0]"
    by (simp add: softmax_def)
  moreover have "[0..<length (softmax [0, 1])] = [0, 1]"
    by (simp add: softmax_def upt_rec)
  ultimately show ?thesis by (simp add: topk_def Let_def) (simp add: softmax_def)
qed

lemma predict_always_B_top1:
  "predict always_B CHR ''A'' (Some ()) (Some 1) g = Inl TypeError_no_len"
proof -
  have x: "getitem (char2int (chars always_B)) CHR ''A'' = Inr 0"
    by (simp add: always_B_def getitem_def char2int_def dict_of_def)
  have i: "one_hot_encode 0 (length (chars always_B)) = Inr [1, 0]"
    by (simp add: always_B_def one_hot_encode_def)
  have f: "forward always_B [1, 0] () = ([0, 1], ())" by (simp add: always_B_def)
  have t: "top_characters (length (chars always_B)) (softmax [0, 1]) (Some 1)
            = Inr ([exp 1 / (1 + exp 1)], Scalar 1)"
    by (simp add: top_characters_def topk_always_B squeeze_def del: One_nat_def)
  obtain u g1 where r: "random_sample g = (u, g1)" by (cases "random_sample g")
  have c: "random_choice (Scalar 1) (normalise (squeeze [exp 1 / (1 + exp 1)])) u
            = Inl TypeError_no_len"
    by (simp add: random_choice_def normalise_def squeeze_def)
  show ?thesis
    unfolding predict_def by (simp add: x i f t r c del: One_nat_def)
qed

subsection \<open>The loops of \<open>sample\<close>\<close>

lemma uniform_random_sample:
  assumes "uniform g"
  shows "fst (random_sample g) < 1" and "uniform (snd (random_sample g))"
  using assms by (simp_all add: uniform_def random_sample_def)

lemma prime_loop_plural:
  assumes "set prime \<subseteq> set (chars net)" and "scores_per_char net"
    and "plural_top_k (length (chars net)) k" and "uniform g"
  shows "\<exists>c' h' g'. prime_loop net prime k c h g = Inr (c', h', g') \<and> uniform g' \<and>
           (if prime = [] then c' = c else \<exists>d. c' = Some d \<and> d \<in> set (chars net))"
  using assms
proof (induction prime arbitrary: c h g)
  case Nil
  then show ?case by simp
next
  case (Cons ch rest)
  have ch: "ch \<in> set (chars net)" using Cons.prems(1) by simp
  have u: "fst (random_sample g) < 1" using Cons.prems(4) by (rule uniform_random_sample)
  obtain d h1 where p: "predict net ch (Some h) k g = Inr (d, h1, snd (random_sample g))"
    and d: "d \<in> set (chars net)"
    using predict_plural [OF ch Cons.prems(2) Cons.prems(3) u, of h] by auto
  have g1: "uniform (snd (random_sample g))"
    using Cons.prems(4) by (rule uniform_random_sample)
  have rest: "set rest \<subseteq> set (chars net)" using Cons.prems(1) by simp
  obtain c' h' g' where l: "prime_loop net rest k (Some d) h1 (snd (random_sample g)) = Inr (c', h', g')"
    and g': "uniform g'"
    and c': "if rest = [] then c' = Some d else \<exists>d'. c' = Some d' \<and> d' \<in> set (chars net)"
    using Cons.IH [OF rest Cons.prems(2) Cons.prems(3) g1, of "Some d" h1] by auto
  have "\<exists>d'. c' = Some d' \<and> d' \<in> set (chars net)"
    using c' d by (cases "rest = []") auto
  then show ?case using l g' by (simp add: p)
qed

lemma generate_loop_plural:
  assumes "cs \<noteq> []" and "last cs \<in> set (chars net)" and "scores_per_char net"
    and "plural_top_k (length (chars net)) k" and "uniform g"
  shows "\<exists>gen. generate_loop net n k cs h g = Inr (cs @ gen) \<and> length gen = n \<and>
           set gen \<subseteq> set (chars net)"
  using assms
proof (induction n arbitrary: cs h g)
  case 0
  then show ?case by simp
next
  case (Suc n)
  have u: "fst (random_sample g) < 1" using Suc.prems(5) by (rule uniform_random_sample)
  obtain d h1 where p: "predict net (last cs) (Some h) k g = Inr (d, h1, snd (random_sample g))"
    and d: "d \<in> set (chars net)"
    using predict_plural [OF Suc.prems(2) Suc.prems(3) Suc.prems(4) u, of h] by auto
  have g1: "uniform (snd (random_sample g))"
    using Suc.prems(5) by (rule uniform_random_sample)
  have ne: "cs @ [d] \<noteq> []" by simp
  have la: "last (cs @ [d]) \<in> set (chars net)" using d by simp
  obtain gen where l: "generate_loop net n k (cs @ [d]) h1 (snd (random_sample g))
                        = Inr ((cs @ [d]) @ gen)"
    and len: "length gen = n" and sub: "set gen \<subseteq> set (chars net)"
    using Suc.IH [OF ne la Suc.prems(3) Suc.prems(4) g1, of h1] by auto
  have "generate_loop net (Suc n) k cs h g = Inr (cs @ (d # gen))"
    using Suc.prems(1) l by (simp add: p)
  moreover have "length (d # gen) = Suc n" using len by simp
  moreover have "set (d # gen) \<subseteq> set (chars net)" using d sub by simp
  ultimately show ?case by (intro exI [of _ "d # gen"]) simp
qed

lemma prime_loop_Inl:
  "prime_loop net prime k c h g = Inl e \<Longrightarrow> e \<noteq> TypeError_not_iterable"
proof (induction prime arbitrary: c h g)
  case Nil
  then show ?case by simp
next
  case (Cons ch rest)
  show ?case
  proof (cases "predict net ch (Some h) k g")
    case (Inl e')
    then have "e' = e" using Cons.prems by simp
    then show ?thesis using predict_Inl [OF Inl] by simp
  next
    case (Inr r)
    obtain d h1 g1 where r: "r = (d, h1, g1)" by (cases r)
    have "prime_loop net rest k (Some d) h1 g1 = Inl e"
      using Cons.prems by (simp add: Inr r)
    then show ?thesis by (rule Cons.IH)
  qed
qed

lemma generate_loop_Inl:
  "generate_loop net n k cs h g = Inl e \<Longrightarrow> e \<noteq> TypeError_not_iterable"
proof (induction n arbitrary: cs h g)
  case 0
  then show ?case by simp
next
  case (Suc n)
  show ?case
  proof (cases "cs = []")
    case True
    then show ?thesis using Suc.prems by auto
  next
    case ne: False
    show ?thesis
    proof (cases "predict net (last cs) (Some h) k g")
      case (Inl e')
      then have "e' = e" using Suc.prems ne by simp
      then show ?thesis using predict_Inl [OF Inl] by simp
    next
      case (Inr r)
      obtain d h1 g1 where r: "r = (d, h1, g1)" by (cases r)
      have "generate_loop net n k (cs @ [d]) h1 g1 = Inl e"
        using Suc.prems ne by (simp add: Inr r)
      then show ?thesis by (rule Suc.IH)
    qed
  qed
qed

lemma sample_Inl:
  assumes "sample net sz prime k g = Inl e"
  shows "e \<noteq> TypeError_not_iterable"
proof (cases "prime_loop net prime k None (init_hidden net 1) g")
  case (Inl e')
  then have "e' = e" using assms by (simp add: sample_def del: One_nat_def)
  then show ?thesis using prime_loop_Inl [OF Inl] by simp
next
  case (Inr r)
  obtain c h1 g1 where r: "r = (c, h1, g1)" by (cases r)
  show ?thesis
  proof (cases c)
    case None
    then have "e = UnboundLocalError"
      using assms by (simp add: sample_def Inr r del: One_nat_def)
    then show ?thesis by simp
  next
    case (Some d)
    then have "generate_loop net sz k (prime @ [d]) h1 g1 = Inl e"
      using assms by (simp add: sample_def Inr r del: One_nat_def)
    then show ?thesis by (rule generate_loop_Inl)
  qed
qed

lemma always_B_ok:
  "scores_per_char always_B" "chars always_B = ''AB''" "uniform half_rng"
  by (simp_all add: scores_per_char_def always_B_def uniform_def half_rng_def)

lemma sample_top_k_one_raises: "\<exists>e. sample net sz prime (Some 1) g = Inl e"
proof (cases prime)
  case Nil
  then show ?thesis by (simp add: sample_def)
next
  case (Cons ch rest)
  obtain e where "predict net ch (Some (init_hidden net 1)) (Some 1) g = Inl e"
    using predict_top_k_one_raises [of net ch "Some (init_hidden net 1)" g] by (rule exE)
  then show ?thesis by (simp add: sample_def Cons del: One_nat_def)
qed

text \<open>
  Claim C6, as stated, fails: a priming string with a character outside the vocabulary
  makes \<open>sample\<close> raise KeyError instead of returning a string. Here the vocabulary
  is \<open>AB\<close>, the priming string is \<open>Z\<close> and \<open>top_k\<close> is unset.
\<close>

theorem sample_unknown_prime_raises:
  "sample always_B 5 ''Z'' None half_rng = Inl KeyError"
  by (simp add: sample_def predict_def always_B_def getitem_def char2int_def dict_of_def)

text \<open>
  Claim C6, amended. Let the priming string be non-empty with all its characters in
  the vocabulary, let the forward pass return one score per character and the
  generator return samples in \<open>[0, 1)\<close>, and let \<open>top_k\<close> be unset with at least two
  characters in the vocabulary, or between two and the vocabulary size. Then for every
  length \<open>sz\<close>, \<open>sample\<close> returns the priming string followed by \<open>1 + sz\<close> generated
  characters, of total length \<open>len(prime) + 1 + sz\<close>.
\<close>

theorem sample_known_prime:
  assumes "prime \<noteq> []" and "set prime \<subseteq> set (chars net)" and "scores_per_char net"
    and "plural_top_k (length (chars net)) top_k" and "uniform g"
  shows "\<exists>gen. sample net sz prime top_k g = Inr (prime @ gen) \<and>
           length gen = 1 + sz \<and> length (prime @ gen) = length prime + 1 + sz"
proof -
  obtain c' h' g' where l: "prime_loop net prime top_k None (init_hidden net 1) g = Inr (c', h', g')"
    and g': "uniform g'"
    and c': "if prime = [] then c' = None else \<exists>d. c' = Some d \<and> d \<in> set (chars net)"
    using prime_loop_plural [OF assms(2) assms(3) assms(4) assms(5), of None "init_hidden net 1"]
    by auto
  obtain d where d: "c' = Some d" and din: "d \<in> set (chars net)"
    using c' assms(1) by auto
  have ne: "prime @ [d] \<noteq> []" by simp
  have la: "last (prime @ [d]) \<in> set (chars net)" using din by simp
  obtain gen where gl: "generate_loop net sz top_k (prime @ [d]) h' g' = Inr ((prime @ [d]) @ gen)"
    and len: "length gen = sz"
    using generate_loop_plural [OF ne la assms(3) assms(4) g', of sz h'] by auto
  have "sample net sz prime top_k g = Inr (prime @ (d # gen))"
    using gl by (simp add: sample_def l d del: One_nat_def)
  moreover have "length (d # gen) = 1 + sz" using len by simp
  ultimately show ?thesis by (intro exI [of _ "d # gen"]) simp
qed

theorem sample_known_prime_witness:
  "''A'' \<noteq> [] \<and> set ''A'' \<subseteq> set (chars always_B) \<and> scores_per_char always_B \<and>
   plural_top_k (length (chars always_B)) (Some 2) \<and> uniform half_rng \<and>
   (\<exists>gen. sample always_B 5 ''A'' (Some 2) half_rng = Inr (''A'' @ gen) \<and> length gen = 6)"
proof -
  have a: "''A'' \<noteq> []" and b: "set ''A'' \<subseteq> set (chars always_B)"
    and c: "plural_top_k (length (chars always_B)) (Some 2)"
    by (simp_all add: always_B_ok plural_top_k_def)
  show ?thesis
    using sample_known_prime [OF a b always_B_ok(1) c always_B_ok(3), of 5]
      a b c always_B_ok(1) always_B_ok(3)
    by simp
qed

text \<open>
  Claim C7 fails on the code. With \<open>top_k = 1\<close> the arrays returned by \<open>topk\<close> have
  shape \<open>(1, 1)\<close>, \<open>squeeze()\<close> makes them zero-dimensional, and
  \<open>np.random.choice\<close> raises on them; no character is selected. On the network that
  always favours \<open>B\<close>, with the priming string \<open>A\<close> and five characters to
  generate, \<open>sample\<close> raises TypeError where the specification expects \<open>ABBBBB\<close>.
  By \<open>sample_top_k_one_raises\<close> the same holds for every network, priming string and
  length.
\<close>

theorem sample_top_k_one_always_B:
  "sample always_B 5 ''A'' (Some 1) half_rng = Inl TypeError_no_len"
  by (simp add: sample_def predict_always_B_top1 del: One_nat_def)

text \<open>
  Claim C8 fails on the code for \<open>top_k = 1\<close>: \<open>predict\<close> does not draw from the
  distribution restricted to the single best character, it raises TypeError (the same
  defect as in claim C7; by \<open>predict_top_k_one_raises\<close> for every network, character
  and state). For \<open>top_k\<close> unset or at least two, \<open>predict_plural\<close> shows that the
  draw succeeds and returns a character of the vocabulary.
\<close>

theorem predict_top_k_one_always_B:
  "predict always_B CHR ''A'' (Some ()) (Some 1) half_rng = Inl TypeError_no_len"
  by (rule predict_always_B_top1)

text \<open>
  Claim C9. With an empty priming string \<open>sample\<close> fails at once: the first loop
  makes no call of \<open>predict\<close> (the hidden state and the generator are returned
  untouched), and reading the unbound \<open>char\<close> raises UnboundLocalError, the condition
  the specification calls EmptyPrime. No character is generated, whatever the
  network, the length and \<open>top_k\<close>.
\<close>

theorem sample_empty_prime:
  "sample net sz [] top_k g = Inl UnboundLocalError \<and>
   prime_loop net [] top_k None (init_hidden net 1) g = Inr (None, init_hidden net 1, g)"
  by (simp add: sample_def)

text \<open>
  Claim C10. A call of \<open>predict\<close> that uses the default \<open>h = None\<close> always fails:
  with KeyError when the character is unknown, otherwise with the TypeError of
  iterating over None in the detach step. The failure comes before the forward pass:
  the result is the same whatever the forward pass is. \<open>sample\<close> passes
  \<open>init_hidden(1)\<close> and then the states that \<open>predict\<close> returns, so it never raises
  that TypeError.
\<close>

theorem predict_default_hidden_fails:
  "predict net ch None top_k g =
     (case char2int (chars net) ch of
        None \<Rightarrow> Inl KeyError
      | Some x \<Rightarrow> Inl TypeError_not_iterable) \<and>
   predict (net\<lparr>forward := fwd\<rparr>) ch None top_k g = predict net ch None top_k g \<and>
   sample net sz prime top_k g \<noteq> Inl TypeError_not_iterable"
proof (intro conjI)
  show "predict net ch None top_k g =
     (case char2int (chars net) ch of
        None \<Rightarrow> Inl KeyError
      | Some x \<Rightarrow> Inl TypeError_not_iterable)"
    by (rule predict_None)
  show "predict (net\<lparr>forward := fwd\<rparr>) ch None top_k g = predict net ch None top_k g"
    by (simp add: predict_None)
  show "sample net sz prime top_k g \<noteq> Inl TypeError_not_iterable"
    using sample_Inl by blast
qed

end
